theory Spec2Isabelle
  imports Main
begin

section \<open>Strings\<close>

text \<open>
  A JavaScript string is modelled as a \<^typ>\<open>string\<close>: a list of code units, restricted to
  the units below 256. \<open>String.prototype.trim\<close> strips the ECMAScript white space and line
  terminators from both ends; below 256 these are TAB, LF, VT, FF, CR, SPACE and NBSP.
\<close>

definition isWhiteSpace :: "char \<Rightarrow> bool" where
  "isWhiteSpace c =
     (c = CHR 0x09 \<or> c = CHR 0x0A \<or> c = CHR 0x0B \<or> c = CHR 0x0C \<or> c = CHR 0x0D
      \<or> c = CHR 0x20 \<or> c = CHR 0xA0)"

definition trim :: "string \<Rightarrow> string" where
  "trim s = dropWhile isWhiteSpace (rev (dropWhile isWhiteSpace (rev s)))"

text \<open>\<open>s.startsWith(t)\<close> and \<open>s.includes(t)\<close>.\<close>

fun startsWith :: "string \<Rightarrow> string \<Rightarrow> bool" where
  "startsWith s [] = True"
| "startsWith [] (c # cs) = False"
| "startsWith (x # xs) (c # cs) = (x = c \<and> startsWith xs cs)"

fun str_includes :: "string \<Rightarrow> string \<Rightarrow> bool" where
  "str_includes [] t = (t = [])"
| "str_includes (x # xs) t = (startsWith (x # xs) t \<or> str_includes xs t)"

text \<open>
  \<open>content.split("\n")\<close> and \<open>lines.join("\n")\<close>. Splitting never returns the empty
  array (the empty string splits into one empty line); joining the empty array gives the
  empty string.
\<close>

fun split_nl :: "string \<Rightarrow> string list" where
  "split_nl [] = [[]]"
| "split_nl (c # cs) =
     (if c = CHR 0x0A then [] # split_nl cs
      else (case split_nl cs of [] \<Rightarrow> [[c]] | l # ls \<Rightarrow> (c # l) # ls))"

fun join_nl :: "string list \<Rightarrow> string" where
  "join_nl [] = []"
| "join_nl [l] = l"
| "join_nl (l # l' # ls) = l @ CHR 0x0A # join_nl (l' # ls)"

text \<open>Decimal rendering of a number inside a template literal.\<close>

definition digit :: "nat \<Rightarrow> char" where
  "digit d = ''0123456789'' ! (d mod 10)"

fun showNat :: "nat \<Rightarrow> string" where
  "showNat n = (if n < 10 then [digit n] else showNat (n div 10) @ [digit (n mod 10)])"

declare showNat.simps [simp del]

section \<open>Prompt ledger\<close>

text \<open>
  The prompt file as the file system presents it to \<open>fs.readFile\<close> and \<open>fs.writeFile\<close>:
  reading a \<open>Missing\<close> file throws, writing a \<open>ReadOnly\<close> file throws.
\<close>

datatype fsfile = Missing | ReadOnly string | Writable string

datatype error = TypeError | LoadError

text \<open>
  \<open>loadPromptsFromFile\<close>: trimmed lines that are neither empty nor start with \<open>#\<close>, in file
  order; an unreadable file throws.
\<close>

definition pendingPrompts :: "string \<Rightarrow> string list" where
  "pendingPrompts content =
     filter (\<lambda>line. length line > 0 \<and> \<not> startsWith line ''#'') (map trim (split_nl content))"

fun loadPromptsFromFile :: "fsfile \<Rightarrow> error + string list" where
  "loadPromptsFromFile Missing = Inl LoadError"
| "loadPromptsFromFile (ReadOnly content) = Inr (pendingPrompts content)"
| "loadPromptsFromFile (Writable content) = Inr (pendingPrompts content)"

text \<open>
  \<open>removePromptFromFile\<close>: the lines kept by the filter, joined again. The \<open>try\<close> block
  returns true once the file is written; the \<open>catch\<close> block returns false and leaves the
  file as it was.
\<close>

definition filteredLines :: "string \<Rightarrow> string \<Rightarrow> string list" where
  "filteredLines content promptToRemove =
     filter (\<lambda>line. trim line \<noteq> trim promptToRemove \<or> startsWith line ''#'') (split_nl content)"

fun removePromptFromFile :: "fsfile \<Rightarrow> string \<Rightarrow> bool \<times> fsfile" where
  "removePromptFromFile Missing promptToRemove = (False, Missing)"
| "removePromptFromFile (ReadOnly content) promptToRemove = (False, ReadOnly content)"
| "removePromptFromFile (Writable content) promptToRemove =
     (True, Writable (join_nl (filteredLines content promptToRemove)))"

section \<open>Credential pool\<close>

text \<open>
  A \<open>WhiskClient\<close> with the name attached to it by \<open>initializeClients\<close>; the pool is the
  array \<open>this.clients\<close> with the cursor \<open>this.currentTokenIndex\<close>.
\<close>

record client =
  name :: string
  authorizationKey :: string

record pool =
  clients :: "client list"
  currentTokenIndex :: nat

text \<open>
  \<open>getNextClient\<close>. With an empty array it returns null. Otherwise it reads the client at
  the cursor, advances the cursor modulo the length and gives a nameless client the name
  \<open>Token k\<close>. A cursor beyond the array reads \<open>undefined\<close>, whose \<open>name\<close> cannot be read:
  a TypeError.
\<close>

definition getNextClient :: "'a pool_scheme \<Rightarrow> error + (client option \<times> 'a pool_scheme)" where
  "getNextClient app =
     (if length (clients app) = 0 then Inr (None, app)
      else if \<not> currentTokenIndex app < length (clients app) then Inl TypeError
      else
        let i = currentTokenIndex app;
            client = clients app ! i;
            i' = (i + 1) mod length (clients app);
            client' = (if name client = [] then client\<lparr>name := ''Token '' @ showNat (i' + 1)\<rparr>
                       else client)
        in Inr (Some client', app\<lparr>clients := (clients app)[i := client'], currentTokenIndex := i'\<rparr>))"

text \<open>\<open>n\<close> successive calls of \<open>getNextClient\<close>, with what each returned.\<close>

fun draw :: "nat \<Rightarrow> 'a pool_scheme \<Rightarrow> error + (client option list \<times> 'a pool_scheme)" where
  "draw 0 app = Inr ([], app)"
| "draw (Suc n) app =
     (case getNextClient app of
        Inl e \<Rightarrow> Inl e
      | Inr (c, app') \<Rightarrow>
          (case draw n app' of
             Inl e \<Rightarrow> Inl e
           | Inr (cs, app'') \<Rightarrow> Inr (c # cs, app'')))"

section \<open>Remote client and image sink\<close>

text \<open>
  What the environment does is data of the model. An \<open>image\<close> is one entry of a panel's
  \<open>generatedImages\<close> together with what \<open>saveImage\<close> does with it: it returns the path
  of the written file, or throws an Error with a message (\<open>Failed to save image: ...\<close>; an
  entry that cannot be read throws as well). A \<open>response\<close> is what \<open>client.generateImage\<close>
  does: it throws (missing key, network fault), returns \<open>{Err: e}\<close>, or returns
  \<open>{Ok: body}\<close> with the panels of \<open>body.imagePanels\<close>, each the list of its
  \<open>generatedImages\<close> (none if absent). \<open>Ok []\<close> also stands for a body without
  \<open>imagePanels\<close> and for a result with neither field set.
\<close>

datatype image = Saved string | SaveFails string

datatype response = Thrown string | Err string | Ok "image list list"

text \<open>
  The oracle for the remote service: the response to a request, given how many requests
  were issued before it, the client used and the prompt.
\<close>

type_synonym remote = "nat \<Rightarrow> client \<Rightarrow> string \<Rightarrow> response"

text \<open>
  The two nested \<open>for\<close> loops that save the images of all panels: the paths pushed onto
  \<open>results.images\<close>, in order, and the message of the Error that ended the loops early,
  if one was thrown. \<open>savedCount\<close> is incremented with every push, so it is the number
  of these paths.
\<close>

fun saveImages :: "image list \<Rightarrow> string list \<times> string option" where
  "saveImages [] = ([], None)"
| "saveImages (Saved filePath # rest) =
     (case saveImages rest of (paths, thrown) \<Rightarrow> (filePath # paths, thrown))"
| "saveImages (SaveFails msg # rest) = ([], Some msg)"

text \<open>The test for a rate-limit (429) or unauthorized (401) error message.\<close>

definition isApiError :: "string \<Rightarrow> bool" where
  "isApiError msg = (str_includes msg ''429'' \<or> str_includes msg ''401'')"

section \<open>Worker\<close>

text \<open>
  The state a worker runs on: the pool and the prompt file of the application, the
  \<open>results\<close> object of the worker, and its counter \<open>consecutivePromptErrors\<close>. The field
  \<open>requests\<close> is a trace that the source does not have: every call of
  \<open>client.generateImage\<close>, with the key of the client, the prompt and the response.
  Spinner texts, the random aspect ratio and the delay between prompts are left out.
\<close>

record worker = pool +
  promptFile :: fsfile
  requests :: "(string \<times> string \<times> response) list"
  success :: nat
  failed :: nat
  images :: "string list"
  completedPrompts :: "string list"
  failedPrompts :: "string list"
  consecutivePromptErrors :: nat

text \<open>
  One pass through the \<open>try\<close> block of the attempt loop with a client at hand. The
  request is issued and recorded. The attempt fails when the result carries \<open>Err\<close>, when
  there is no panel, or when something is thrown (by \<open>generateImage\<close> or while saving, in
  which case the images pushed before stay in \<open>results.images\<close>); \<open>Failed b\<close> tells
  whether the message of the error had 429 or 401 in it, the test that sets
  \<open>promptHadApiError\<close>. Otherwise all images are saved, the prompt is removed from the
  prompt file, \<open>savedCount\<close> is added to \<open>results.success\<close> and the prompt is pushed
  onto \<open>completedPrompts\<close>.
\<close>

datatype outcome = Succeeded | Failed bool

definition attempt :: "remote \<Rightarrow> string \<Rightarrow> client \<Rightarrow> worker \<Rightarrow> outcome \<times> worker" where
  "attempt api prompt client st =
     (let result = api (length (requests st)) client prompt;
          st2 = st\<lparr>requests := requests st @ [(authorizationKey client, prompt, result)]\<rparr>
      in case result of
           Thrown msg \<Rightarrow> (Failed (isApiError msg), st2)
         | Err msg \<Rightarrow> (Failed (isApiError msg), st2)
         | Ok imagePanel \<Rightarrow>
             if imagePanel = [] then (Failed False, st2)
             else
               (case saveImages (concat imagePanel) of
                  (paths, Some msg) \<Rightarrow>
                    (Failed (isApiError msg), st2\<lparr>images := images st2 @ paths\<rparr>)
                | (paths, None) \<Rightarrow>
                    (case removePromptFromFile (promptFile st2) prompt of
                       (removed, f) \<Rightarrow>
                         (Succeeded,
                          st2\<lparr>images := images st2 @ paths,
                              promptFile := f,
                              success := success st2 + length paths,
                              completedPrompts := completedPrompts st2 @ [prompt]\<rparr>))))"

text \<open>
  The end of a failed attempt, after \<open>attempts++\<close>: once the budget is used up the prompt
  is counted as failed and pushed onto \<open>failedPrompts\<close>.
\<close>

definition failAttempt :: "string \<Rightarrow> nat \<Rightarrow> nat \<Rightarrow> worker \<Rightarrow> worker" where
  "failAttempt prompt maxAttempts attempts st =
     (if attempts \<ge> maxAttempts
      then st\<lparr>failed := failed st + 1, failedPrompts := failedPrompts st @ [prompt]\<rparr>
      else st)"

text \<open>
  The \<open>while (!success && attempts < maxAttempts)\<close> loop of one prompt. It returns the
  final \<open>promptHadApiError\<close> with the state. A null client counts the prompt as failed
  and leaves the loop by \<open>break\<close>; a success leaves it with the flag reset to false.
\<close>

function attemptLoop ::
  "remote \<Rightarrow> string \<Rightarrow> nat \<Rightarrow> nat \<Rightarrow> bool \<Rightarrow> worker \<Rightarrow> error + (bool \<times> worker)" where
  "attemptLoop api prompt maxAttempts attempts promptHadApiError st =
     (if \<not> attempts < maxAttempts then Inr (promptHadApiError, st)
      else
        (case getNextClient st of
           Inl e \<Rightarrow> Inl e
         | Inr (None, st1) \<Rightarrow> Inr (promptHadApiError, st1\<lparr>failed := failed st1 + 1\<rparr>)
         | Inr (Some client, st1) \<Rightarrow>
             (case attempt api prompt client st1 of
                (Succeeded, st2) \<Rightarrow> Inr (False, st2)
              | (Failed apiError, st2) \<Rightarrow>
                  attemptLoop api prompt maxAttempts (attempts + 1)
                    (promptHadApiError \<or> apiError)
                    (failAttempt prompt maxAttempts (attempts + 1) st2))))"
  by pat_completeness auto
termination
  by (relation "measure (\<lambda>(api, prompt, maxAttempts, attempts, h, st). maxAttempts - attempts)")
     auto

declare attemptLoop.simps [simp del]

text \<open>
  One iteration of the \<open>for\<close> loop up to the breaker's test: the first (unused) draw of a
  client, the attempt loop with \<open>maxAttempts\<close> the pool size or 1, and the update of
  \<open>consecutivePromptErrors\<close>. It returns \<open>promptHadApiError\<close> with the state.
\<close>

definition processPrompt :: "remote \<Rightarrow> string \<Rightarrow> worker \<Rightarrow> error + (bool \<times> worker)" where
  "processPrompt api prompt st =
     (case getNextClient st of
        Inl e \<Rightarrow> Inl e
      | Inr (client, st1) \<Rightarrow>
          (let maxAttempts = (if length (clients st1) > 0 then length (clients st1) else 1)
           in case attemptLoop api prompt maxAttempts 0 False st1 of
                Inl e \<Rightarrow> Inl e
              | Inr (promptHadApiError, st2) \<Rightarrow>
                  if promptHadApiError
                  then Inr (True, st2\<lparr>consecutivePromptErrors := consecutivePromptErrors st2 + 1\<rparr>)
                  else Inr (False, st2\<lparr>consecutivePromptErrors := 0\<rparr>)))"

text \<open>
  The \<open>for\<close> loop over the worker's prompts. When a prompt leaves the flag set and the
  counter has reached \<open>MAX_CONSECUTIVE_PROMPT_ERRORS = 3\<close>, the prompts after it are pushed
  onto \<open>failedPrompts\<close>, counted as failed, and the worker returns.
\<close>

fun promptLoop :: "remote \<Rightarrow> string list \<Rightarrow> worker \<Rightarrow> error + worker" where
  "promptLoop api [] st = Inr st"
| "promptLoop api (prompt # rest) st =
     (case processPrompt api prompt st of
        Inl e \<Rightarrow> Inl e
      | Inr (promptHadApiError, st') \<Rightarrow>
          if promptHadApiError \<and> consecutivePromptErrors st' \<ge> 3
          then Inr (st'\<lparr>failedPrompts := failedPrompts st' @ rest,
                       failed := failed st' + length rest\<rparr>)
          else promptLoop api rest st')"

text \<open>\<open>generateImagesWorker\<close>: fresh results and counter, then the loop.\<close>

definition generateImagesWorker :: "remote \<Rightarrow> string list \<Rightarrow> worker \<Rightarrow> error + worker" where
  "generateImagesWorker api prompts st =
     promptLoop api prompts
       (st\<lparr>success := 0, failed := 0, images := [], completedPrompts := [],
           failedPrompts := [], consecutivePromptErrors := 0\<rparr>)"

section \<open>Orchestrator\<close>

text \<open>
  The round-robin distribution in \<open>generateImages\<close>: \<open>promptsPerWorker\<close> starts as one
  empty array per worker, and \<open>forEach\<close> pushes the prompt at \<open>index\<close> onto the array at
  \<open>index % workers\<close>. With no worker that array is undefined and the push a TypeError.
\<close>

fun distribute :: "nat \<Rightarrow> string list \<Rightarrow> nat \<Rightarrow> string list list \<Rightarrow> error + string list list" where
  "distribute workers [] index ppw = Inr ppw"
| "distribute workers (prompt # rest) index ppw =
     (if workers = 0 then Inl TypeError
      else
        (let workerIndex = index mod workers
         in if \<not> workerIndex < length ppw then Inl TypeError
            else distribute workers rest (index + 1)
                   (ppw[workerIndex := ppw ! workerIndex @ [prompt]])))"

definition promptsPerWorker :: "nat \<Rightarrow> string list \<Rightarrow> error + string list list" where
  "promptsPerWorker workers prompts = distribute workers prompts 0 (replicate workers [])"

text \<open>
  The count of remaining prompts in the final report: the prompt file is loaded again, and
  a failure to load leaves the count at 0.
\<close>

definition remainingPrompts :: "fsfile \<Rightarrow> nat" where
  "remainingPrompts f = (case loadPromptsFromFile f of Inl e \<Rightarrow> 0 | Inr ps \<Rightarrow> length ps)"

section \<open>The worker of the single-token variant\<close>

text \<open>
  \<open>generateImagesWorker\<close> of \<open>index.js\<close>, the variant of the application with one token and
  no prompt ledger: every prompt gets one request through \<open>this.client\<close>; an \<open>Err\<close>, a
  result without panels or anything thrown counts the prompt as failed, otherwise
  \<open>savedCount\<close> is added to \<open>results.success\<close>. Its results \<open>{success, failed, images}\<close>
  are kept in the fields of the same names of \<open>worker\<close>; the other fields are not used.
\<close>

fun promptLoop_index :: "remote \<Rightarrow> client \<Rightarrow> string list \<Rightarrow> worker \<Rightarrow> worker" where
  "promptLoop_index api cl [] st = st"
| "promptLoop_index api cl (prompt # rest) st =
     (let result = api (length (requests st)) cl prompt;
          st2 = st\<lparr>requests := requests st @ [(authorizationKey cl, prompt, result)]\<rparr>
      in promptLoop_index api cl rest
           (case result of
              Thrown msg \<Rightarrow> st2\<lparr>failed := failed st2 + 1\<rparr>
            | Err msg \<Rightarrow> st2\<lparr>failed := failed st2 + 1\<rparr>
            | Ok imagePanel \<Rightarrow>
                if imagePanel = [] then st2\<lparr>failed := failed st2 + 1\<rparr>
                else
                  (case saveImages (concat imagePanel) of
                     (paths, Some msg) \<Rightarrow>
                       st2\<lparr>images := images st2 @ paths, failed := failed st2 + 1\<rparr>
                   | (paths, None) \<Rightarrow>
                       st2\<lparr>images := images st2 @ paths,
                           success := success st2 + length paths\<rparr>)))"

definition generateImagesWorker_index :: "remote \<Rightarrow> client \<Rightarrow> string list \<Rightarrow> worker \<Rightarrow> worker" where
  "generateImagesWorker_index api cl prompts st =
     promptLoop_index api cl prompts (st\<lparr>success := 0, failed := 0, images := []\<rparr>)"

section \<open>Notions used in the properties\<close>





text \<open>The cursor of a non-empty pool points into the array.\<close>

definition cursorInRange :: "'a pool_scheme \<Rightarrow> bool" where
  "cursorInRange app = (currentTokenIndex app < length (clients app))"

section \<open>Scenarios\<close>

text \<open>
  Concrete pools, states and remote services for the examples below. \<open>startState\<close> is
  the application as \<open>initializeClients\<close> leaves it, with a writable prompt file, no
  request issued yet and the results of a worker at their initial values.
\<close>

definition token1 :: client where
  "token1 = \<lparr>name = ''Token 1'', authorizationKey = ''key-1''\<rparr>"

definition token2 :: client where
  "token2 = \<lparr>name = ''Token 2'', authorizationKey = ''key-2''\<rparr>"

definition startState :: "client list \<Rightarrow> string \<Rightarrow> worker" where
  "startState cs content =
     \<lparr>clients = cs, currentTokenIndex = 0, promptFile = Writable content, requests = [],
      success = 0, failed = 0, images = [], completedPrompts = [], failedPrompts = [],
      consecutivePromptErrors = 0\<rparr>"

text \<open>Every request is answered with HTTP status 429, or every request with status 500.\<close>

definition rateLimited :: remote where
  "rateLimited n c p = Err ''HTTP error! status: 429''"

definition serverError :: remote where
  "serverError n c p = Err ''HTTP error! status: 500''"


text \<open>Prompt \<open>a\<close> gets two images in one panel, any other prompt a server error.\<close>

definition onlyA :: remote where
  "onlyA n c p =
     (if p = ''a'' then Ok [[Saved ''w01_1_landscape_1.jpg'', Saved ''w01_1_landscape_2.jpg'']]
      else Err ''HTTP error! status: 500'')"

text \<open>Two images come back; the first is saved, saving the second throws.\<close>

definition secondSaveFails :: remote where
  "secondSaveFails n c p =
     Ok [[Saved ''w01_1_landscape_1.jpg'', SaveFails ''Failed to save image: ENOSPC'']]"


section \<open>Lines and prompts of the ledger\<close>

lemma split_nl_not_Nil: "split_nl s \<noteq> []"
  by (induction s) (auto split: list.splits)

lemma split_nl_line: "CHR 0x0A \<notin> set l \<Longrightarrow> split_nl l = [l]"
  by (induction l) auto

lemma split_nl_append: "CHR 0x0A \<notin> set l \<Longrightarrow> split_nl (l @ CHR 0x0A # s) = l # split_nl s"
  by (induction l) auto

lemma split_nl_no_newline: "l \<in> set (split_nl s) \<Longrightarrow> CHR 0x0A \<notin> set l"
proof (induction s arbitrary: l)
  case Nil
  then show ?case by simp
next
  case (Cons c cs)
  show ?case
  proof (cases "c = CHR 0x0A")
    case True
    with Cons show ?thesis by auto
  next
    case False
    obtain k ks where ks: "split_nl cs = k # ks"
      using split_nl_not_Nil by (cases "split_nl cs") auto
    with False Cons.prems have "l = c # k \<or> l \<in> set ks" by auto
    then show ?thesis
      using Cons.IH ks False by auto
  qed
qed

lemma split_join_nl:
  "ls \<noteq> [] \<Longrightarrow> \<forall>l\<in>set ls. CHR 0x0A \<notin> set l \<Longrightarrow> split_nl (join_nl ls) = ls"
proof (induction ls rule: join_nl.induct)
  case 1
  then show ?case by simp
next
  case (2 l)
  then show ?case by (simp add: split_nl_line)
next
  case (3 l l' ls)
  then show ?case by (simp add: split_nl_append)
qed

lemma hash_not_space: "\<not> isWhiteSpace CHR ''#''"
  by (simp add: isWhiteSpace_def)

lemma startsWith_hash: "startsWith l ''#'' = (\<exists>r. l = CHR ''#'' # r)"
  by (cases l) auto

lemma trim_hash: "startsWith l ''#'' \<Longrightarrow> startsWith (trim l) ''#''"
proof -
  assume "startsWith l ''#''"
  then obtain r where l: "l = CHR ''#'' # r" by (auto simp: startsWith_hash)
  have "dropWhile isWhiteSpace (rev r @ [CHR ''#'']) = dropWhile isWhiteSpace (rev r) @ [CHR ''#'']"
    using hash_not_space by (simp add: dropWhile_append3)
  then have "trim l = CHR ''#'' # rev (dropWhile isWhiteSpace (rev r))"
    using hash_not_space by (simp add: trim_def l)
  then show ?thesis by simp
qed

lemma pending_filter:
  "filter (\<lambda>line. length line > 0 \<and> \<not> startsWith line ''#'')
      (map trim (filter (\<lambda>line. trim line \<noteq> t \<or> startsWith line ''#'') ls))
   = filter (\<lambda>q. q \<noteq> t) (filter (\<lambda>line. length line > 0 \<and> \<not> startsWith line ''#'') (map trim ls))"
  by (induction ls) (auto dest: trim_hash)

lemma trim_Nil: "trim [] = []" by (simp add: trim_def)

lemma pending_remove:
  "pendingPrompts (join_nl (filteredLines content p)) = filter (\<lambda>q. q \<noteq> trim p) (pendingPrompts content)"
proof (cases "filteredLines content p = []")
  case True
  then have "\<forall>l\<in>set (split_nl content). trim l = trim p"
    by (auto simp: filteredLines_def filter_empty_conv)
  then have "filter (\<lambda>q. q \<noteq> trim p) (pendingPrompts content) = []"
    by (auto simp: pendingPrompts_def filter_empty_conv)
  moreover have "pendingPrompts (join_nl (filteredLines content p)) = []"
    using True by (simp add: pendingPrompts_def trim_Nil)
  ultimately show ?thesis by simp
next
  case False
  have "\<forall>l\<in>set (filteredLines content p). CHR 0x0A \<notin> set l"
    using split_nl_no_newline by (auto simp: filteredLines_def)
  with False have "split_nl (join_nl (filteredLines content p)) = filteredLines content p"
    by (rule split_join_nl)
  then have "pendingPrompts (join_nl (filteredLines content p))
      = filter (\<lambda>line. length line > 0 \<and> \<not> startsWith line ''#'') (map trim (filteredLines content p))"
    by (simp only: pendingPrompts_def)
  also have "\<dots> = filter (\<lambda>q. q \<noteq> trim p) (pendingPrompts content)"
    unfolding filteredLines_def pendingPrompts_def by (rule pending_filter)
  finally show ?thesis .
qed

subsection \<open>Removal from the ledger\<close>

text \<open>
  Claim C4, as amended. \<open>removePromptFromFile\<close> on a file that can be read and written
  drops every line whose trimmed text equals the trimmed prompt and that does not start
  with \<open>#\<close>, not just one of them, and keeps all other lines in order (a file whose lines
  are all dropped becomes the empty file). So the pending prompts of the rewritten file
  are the pending prompts of the old one without any occurrence of the trimmed prompt: of
  two lines with the same prompt none remains.
\<close>

theorem removePromptFromFile_drops_every_match:
  "\<exists>content'. removePromptFromFile (Writable content) p = (True, Writable content')
     \<and> split_nl content' =
         (if \<exists>line\<in>set (split_nl content). trim line \<noteq> trim p \<or> startsWith line ''#''
          then filter (\<lambda>line. trim line \<noteq> trim p \<or> startsWith line ''#'') (split_nl content)
          else [[]])
     \<and> pendingPrompts content' = filter (\<lambda>q. q \<noteq> trim p) (pendingPrompts content)"
proof -
  let ?ls = "filteredLines content p"
  have no_nl: "\<forall>l\<in>set ?ls. CHR 0x0A \<notin> set l"
    using split_nl_no_newline by (auto simp: filteredLines_def)
  have "split_nl (join_nl ?ls) = (if ?ls \<noteq> [] then ?ls else [[]])"
    using no_nl by (simp add: split_join_nl)
  moreover have "(?ls \<noteq> []) = (\<exists>line\<in>set (split_nl content). trim line \<noteq> trim p \<or> startsWith line ''#'')"
    by (auto simp: filteredLines_def filter_empty_conv)
  ultimately show ?thesis
    by (simp add: pending_remove) (simp add: filteredLines_def)
qed

theorem removePromptFromFile_drops_every_match_witness:
  "\<exists>content'. removePromptFromFile (Writable ''a\<newline>b\<newline>a\<newline>#a'') '' a'' = (True, Writable content')
     \<and> split_nl content' = [''b'', ''#a'']
     \<and> pendingPrompts content' = [''b'']"
proof -
  have t: "trim '' a'' = ''a''" "trim ''a'' = ''a''" "trim ''b'' = ''b''" "trim ''#a'' = ''#a''"
    by (simp_all add: trim_def isWhiteSpace_def)
  have s: "split_nl ''a\<newline>b\<newline>a\<newline>#a'' = [''a'', ''b'', ''a'', ''#a'']"
    by simp
  have p: "pendingPrompts ''a\<newline>b\<newline>a\<newline>#a'' = [''a'', ''b'', ''a'']"
    by (simp add: pendingPrompts_def t)
  show ?thesis
    using removePromptFromFile_drops_every_match [of "''a\<newline>b\<newline>a\<newline>#a''" "'' a''"]
    by (simp add: s t p)
qed

text \<open>
  Claim C4 as stated fails: with the prompt \<open>a\<close> on two lines, one call removes both, and
  no occurrence is left where the claim leaves one.
\<close>

theorem removePromptFromFile_one_match_counterexample:
  "pendingPrompts ''a\<newline>a'' = [''a'', ''a'']
   \<and> removePromptFromFile (Writable ''a\<newline>a'') ''a'' = (True, Writable [])
   \<and> pendingPrompts [] = []"
  by (simp add: pendingPrompts_def filteredLines_def trim_def isWhiteSpace_def)

text \<open>
  Claim C5, as amended. \<open>removePromptFromFile\<close> returns true exactly when the file could
  be read and written again, whether or not any line matched the prompt: it returns true
  also when the prompt is not among the pending prompts of the file, which are then left
  as they were. When reading or writing fails it returns false, leaves the file as it
  was and throws nothing.
\<close>

theorem removePromptFromFile_result:
  "(fst (removePromptFromFile f p) \<longleftrightarrow> (\<exists>content. f = Writable content))
   \<and> (\<not> fst (removePromptFromFile f p) \<longrightarrow> snd (removePromptFromFile f p) = f)
   \<and> (\<forall>content. f = Writable content \<and> trim p \<notin> set (pendingPrompts content) \<longrightarrow>
         (\<exists>content'. removePromptFromFile f p = (True, Writable content')
            \<and> pendingPrompts content' = pendingPrompts content))"
proof (cases f)
  case Missing
  then show ?thesis by simp
next
  case (ReadOnly content)
  then show ?thesis by simp
next
  case (Writable content)
  have "pendingPrompts (join_nl (filteredLines content p)) = pendingPrompts content"
    if "trim p \<notin> set (pendingPrompts content)"
  proof -
    have "filter (\<lambda>q. q \<noteq> trim p) (pendingPrompts content) = pendingPrompts content"
      using that by (auto simp: filter_id_conv)
    then show ?thesis by (simp only: pending_remove)
  qed
  with Writable show ?thesis by simp
qed

theorem removePromptFromFile_result_witness:
  "\<not> fst (removePromptFromFile Missing ''a'')
   \<and> snd (removePromptFromFile Missing ''a'') = Missing
   \<and> (\<exists>content'. removePromptFromFile (Writable ''b'') ''a'' = (True, Writable content')
         \<and> pendingPrompts content' = [''b''])"
proof -
  have t: "trim ''a'' = ''a''" "trim ''b'' = ''b''"
    by (simp_all add: trim_def isWhiteSpace_def)
  have p: "pendingPrompts ''b'' = [''b'']"
    by (simp add: pendingPrompts_def t)
  have "\<exists>content'. removePromptFromFile (Writable ''b'') ''a'' = (True, Writable content')
         \<and> pendingPrompts content' = [''b'']"
    using removePromptFromFile_result [of "Writable ''b''" "''a''"] by (simp add: t p)
  then show ?thesis
    using removePromptFromFile_result [of Missing "''a''"] by simp
qed

text \<open>
  Claim C5 as stated fails: no line of the file matches the prompt, nothing is removed,
  and the call returns true.
\<close>

theorem removePromptFromFile_no_match_counterexample:
  "pendingPrompts ''b'' = [''b'']
   \<and> removePromptFromFile (Writable ''b'') ''a'' = (True, Writable ''b'')"
  by (simp add: pendingPrompts_def filteredLines_def trim_def isWhiteSpace_def)

section \<open>Rotation of the pool\<close>

lemma map_key_update:
  "i < length xs \<Longrightarrow> f c = f (xs ! i) \<Longrightarrow> map f (xs[i := c]) = map f xs"
  by (simp add: map_update list_update_same_conv)

lemma getNextClient_some:
  assumes "currentTokenIndex app < length (clients app)"
  shows "\<exists>c app'. getNextClient app = Inr (Some c, app')
           \<and> authorizationKey c = authorizationKey (clients app ! currentTokenIndex app)
           \<and> map authorizationKey (clients app') = map authorizationKey (clients app)
           \<and> currentTokenIndex app' = (currentTokenIndex app + 1) mod length (clients app)"
  using assms by (auto simp: getNextClient_def Let_def map_key_update)

lemma getNextClient_null: "getNextClient app = Inr (None, app') \<Longrightarrow> clients app = []"
  by (auto simp: getNextClient_def Let_def split: if_splits)

lemma draw_rotation:
  "currentTokenIndex app < length (clients app) \<Longrightarrow>
   \<exists>cs app'. draw n app = Inr (cs, app')
     \<and> map (map_option authorizationKey) cs =
         map (\<lambda>k. Some (authorizationKey
                 (clients app ! ((currentTokenIndex app + k) mod length (clients app))))) [0..<n]
     \<and> map authorizationKey (clients app') = map authorizationKey (clients app)
     \<and> currentTokenIndex app' = (currentTokenIndex app + n) mod length (clients app)"
proof (induction n arbitrary: app)
  case 0
  then show ?case by simp
next
  case (Suc n)
  let ?P = "length (clients app)"
  from getNextClient_some [OF Suc.prems] obtain c app1 where
    g: "getNextClient app = Inr (Some c, app1)"
    and kc: "authorizationKey c = authorizationKey (clients app ! currentTokenIndex app)"
    and keys1: "map authorizationKey (clients app1) = map authorizationKey (clients app)"
    and idx1: "currentTokenIndex app1 = (currentTokenIndex app + 1) mod ?P"
    by blast
  from keys1 have len1: "length (clients app1) = ?P"
    by (metis length_map)
  have pos: "0 < ?P" using Suc.prems by (cases "clients app") auto
  then have ok1: "currentTokenIndex app1 < length (clients app1)"
    by (simp add: idx1 len1)
  from Suc.IH [OF ok1] obtain cs app2 where
    d: "draw n app1 = Inr (cs, app2)"
    and ks: "map (map_option authorizationKey) cs =
         map (\<lambda>k. Some (authorizationKey
                 (clients app1 ! ((currentTokenIndex app1 + k) mod length (clients app1))))) [0..<n]"
    and keys2: "map authorizationKey (clients app2) = map authorizationKey (clients app1)"
    and idx2: "currentTokenIndex app2 = (currentTokenIndex app1 + n) mod length (clients app1)"
    by blast
  have nth1: "authorizationKey (clients app1 ! j) = authorizationKey (clients app ! j)" if "j < ?P" for j
    using that keys1 len1 by (metis nth_map)
  have shift: "(currentTokenIndex app1 + k) mod ?P = (currentTokenIndex app + Suc k) mod ?P" for k
    by (simp add: idx1 mod_add_left_eq)
  have ks': "map (map_option authorizationKey) cs =
         map (\<lambda>k. Some (authorizationKey
                 (clients app ! ((currentTokenIndex app + Suc k) mod ?P)))) [0..<n]"
    using pos by (simp add: ks len1 shift nth1)
  have "[0..<Suc n] = 0 # map Suc [0..<n]"
    by (simp add: upt_conv_Cons map_Suc_upt del: upt_Suc)
  then have "map (\<lambda>k. Some (authorizationKey
                 (clients app ! ((currentTokenIndex app + k) mod ?P)))) [0..<Suc n]
      = Some (authorizationKey c) # map (map_option authorizationKey) cs"
    using Suc.prems by (simp add: ks' kc comp_def del: upt_Suc)
  moreover have "currentTokenIndex app2 = (currentTokenIndex app + Suc n) mod ?P"
    by (simp add: idx2 len1 shift)
  ultimately show ?case
    using g d keys1 keys2 by simp
qed

text \<open>
  Claim C6. From a pool of \<open>P \<ge> 1\<close> clients with the cursor at 0, \<open>P\<close> successive calls
  of \<open>getNextClient\<close> return the tokens of the pool, each once and in pool order; the
  next call returns the first token again; and \<open>getNextClient\<close> returns null only when
  the pool is empty.
\<close>

theorem next_rotation:
  fixes app :: "'a pool_scheme"
  assumes "clients app \<noteq> []" and "currentTokenIndex app = 0"
  shows "\<exists>cs app'. draw (length (clients app)) app = Inr (cs, app')
           \<and> map (map_option authorizationKey) cs
               = map (\<lambda>c. Some (authorizationKey c)) (clients app)
           \<and> (\<exists>c app''. getNextClient app' = Inr (Some c, app'')
                 \<and> authorizationKey c = authorizationKey (hd (clients app)))
           \<and> (\<forall>(q::'a pool_scheme) q'. getNextClient q = Inr (None, q') \<longrightarrow> clients q = [])"
proof -
  let ?P = "length (clients app)"
  have ok: "currentTokenIndex app < ?P" using assms by simp
  have "\<exists>cs app'. draw ?P app = Inr (cs, app')
     \<and> map (map_option authorizationKey) cs =
         map (\<lambda>k. Some (authorizationKey (clients app ! (k mod ?P)))) [0..<?P]
     \<and> map authorizationKey (clients app') = map authorizationKey (clients app)
     \<and> currentTokenIndex app' = 0"
    using draw_rotation [OF ok, of ?P] by (simp add: assms(2))
  then obtain cs app' where
    d: "draw ?P app = Inr (cs, app')"
    and ks: "map (map_option authorizationKey) cs =
         map (\<lambda>k. Some (authorizationKey (clients app ! (k mod ?P)))) [0..<?P]"
    and keys: "map authorizationKey (clients app') = map authorizationKey (clients app)"
    and idx: "currentTokenIndex app' = 0"
    by blast
  have "map (\<lambda>k. Some (authorizationKey (clients app ! (k mod ?P)))) [0..<?P]
      = map (\<lambda>k. Some (authorizationKey (clients app ! k))) [0..<?P]"
    by (rule map_cong) simp_all
  also have "\<dots> = map (\<lambda>c. Some (authorizationKey c)) (map (\<lambda>k. clients app ! k) [0..<?P])"
    by (simp add: comp_def)
  also have "\<dots> = map (\<lambda>c. Some (authorizationKey c)) (clients app)"
    by (simp only: map_nth)
  finally have ks': "map (map_option authorizationKey) cs
      = map (\<lambda>c. Some (authorizationKey c)) (clients app)"
    using ks by simp
  from keys have len: "length (clients app') = ?P" by (metis length_map)
  then have ok': "currentTokenIndex app' < length (clients app')" using ok idx by (cases "clients app") auto
  from getNextClient_some [OF ok'] obtain c app'' where
    g: "getNextClient app' = Inr (Some c, app'')"
    and kc: "authorizationKey c = authorizationKey (clients app' ! 0)"
    using idx by auto
  have pos: "0 < ?P" using assms(1) by simp
  have "map authorizationKey (clients app') ! 0 = map authorizationKey (clients app) ! 0"
    by (simp only: keys)
  then have "authorizationKey (clients app' ! 0) = authorizationKey (clients app ! 0)"
    using pos len by simp
  then have "authorizationKey c = authorizationKey (hd (clients app))"
    using kc assms by (simp add: hd_conv_nth)
  moreover have "\<forall>(q::'a pool_scheme) q'. getNextClient q = Inr (None, q') \<longrightarrow> clients q = []"
    by (simp add: getNextClient_null)
  ultimately show ?thesis
    using d ks' g by simp
qed

theorem next_rotation_witness:
  "\<exists>cs app'.
     draw 2 \<lparr>clients = [\<lparr>name = ''A'', authorizationKey = ''k1''\<rparr>,
                        \<lparr>name = [], authorizationKey = ''k2''\<rparr>],
             currentTokenIndex = 0\<rparr> = Inr (cs, app')
     \<and> map (map_option authorizationKey) cs = [Some ''k1'', Some ''k2'']
     \<and> (\<exists>c app''. getNextClient app' = Inr (Some c, app'') \<and> authorizationKey c = ''k1'')"
proof -
  let ?app = "\<lparr>clients = [\<lparr>name = ''A'', authorizationKey = ''k1''\<rparr>,
                          \<lparr>name = [], authorizationKey = ''k2''\<rparr>],
               currentTokenIndex = 0\<rparr>"
  have h: "clients ?app \<noteq> []" "currentTokenIndex ?app = 0"
    by simp_all
  have l: "length (clients ?app) = 2"
    by simp
  from next_rotation [OF h] obtain cs app' where
    a: "draw (length (clients ?app)) ?app = Inr (cs, app')"
    and b: "map (map_option authorizationKey) cs
              = map (\<lambda>c. Some (authorizationKey c)) (clients ?app)"
    and c: "\<exists>c app''. getNextClient app' = Inr (Some c, app'')
              \<and> authorizationKey c = authorizationKey (hd (clients ?app))"
    by blast
  from a have a': "draw 2 ?app = Inr (cs, app')"
    by (simp only: l)
  from b have b': "map (map_option authorizationKey) cs = [Some ''k1'', Some ''k2'']"
    by simp
  from c have c': "\<exists>c app''. getNextClient app' = Inr (Some c, app'') \<and> authorizationKey c = ''k1''"
    by simp
  from a' b' c' show ?thesis
    by (intro exI [of _ cs] exI [of _ app'] conjI)
qed

section \<open>Distribution of the prompts\<close>

lemma distribute_enumerate:
  "0 < workers \<Longrightarrow> length ppw = workers \<Longrightarrow>
   distribute workers ps k ppw =
     Inr (map (\<lambda>w. ppw ! w @ map snd (filter (\<lambda>(i, p). i mod workers = w) (enumerate k ps)))
            [0..<workers])"
proof (induction ps arbitrary: k ppw)
  case Nil
  then show ?case using map_nth [of ppw] by simp
next
  case (Cons p ps)
  let ?w = "k mod workers"
  let ?ppw = "ppw[?w := ppw ! ?w @ [p]]"
  have w: "?w < length ppw" using Cons.prems by simp
  have len: "length ?ppw = workers" using Cons.prems by simp
  have "distribute workers (p # ps) k ppw = distribute workers ps (Suc k) ?ppw"
    using Cons.prems w by (simp add: Let_def)
  also have "\<dots> = Inr (map (\<lambda>w. ?ppw ! w @ map snd (filter (\<lambda>(i, p). i mod workers = w) (enumerate (Suc k) ps)))
            [0..<workers])"
    using Cons.IH [OF Cons.prems(1) len] .
  also have "\<dots> = Inr (map (\<lambda>w. ppw ! w @ map snd (filter (\<lambda>(i, p). i mod workers = w) (enumerate k (p # ps))))
            [0..<workers])"
  proof -
    have "?ppw ! w @ map snd (filter (\<lambda>(i, p). i mod workers = w) (enumerate (Suc k) ps))
        = ppw ! w @ map snd (filter (\<lambda>(i, p). i mod workers = w) (enumerate k (p # ps)))"
      if "w \<in> set [0..<workers]" for w
    proof (cases "w = ?w")
      case True
      then show ?thesis using w by simp
    next
      case False
      then have "k mod workers \<noteq> w" by simp
      moreover have "?ppw ! w = ppw ! w" using False by simp
      ultimately show ?thesis by simp
    qed
    then show ?thesis by (simp cong: map_cong)
  qed
  finally show ?case .
qed

lemma enumerate_nth: "enumerate 0 xs = map (\<lambda>i. (i, xs ! i)) [0..<length xs]"
  by (rule nth_equalityI) (simp_all add: nth_enumerate_eq)

lemma enumerate_filter:
  "map snd (filter (\<lambda>(i, p). P i) (enumerate 0 xs)) = map (\<lambda>i. xs ! i) (filter P [0..<length xs])"
  by (simp add: enumerate_nth filter_map comp_def)

text \<open>
  Claim C8. With at least one worker, the prompt at index \<open>i\<close> goes to worker
  \<open>i mod workers\<close>, and every worker holds its prompts in the order of the prompt list:
  worker \<open>w\<close> gets the prompts at the indices \<open>i\<close> with \<open>i mod workers = w\<close>, ascending.
\<close>

theorem round_robin:
  assumes "1 \<le> workers"
  shows "promptsPerWorker workers prompts =
     Inr (map (\<lambda>w. map (\<lambda>i. prompts ! i) (filter (\<lambda>i. i mod workers = w) [0..<length prompts]))
            [0..<workers])"
proof -
  have "promptsPerWorker workers prompts =
     Inr (map (\<lambda>w. replicate workers [] ! w @ map snd (filter (\<lambda>(i, p). i mod workers = w) (enumerate 0 prompts)))
            [0..<workers])"
    unfolding promptsPerWorker_def using assms by (intro distribute_enumerate) simp_all
  then show ?thesis
    by (simp add: enumerate_filter)
qed

theorem round_robin_witness:
  "(1::nat) \<le> 3 \<and>
   promptsPerWorker 3 [''p0'', ''p1'', ''p2'', ''p3'', ''p4'', ''p5'', ''p6'', ''p7'', ''p8''] =
     Inr [[''p0'', ''p3'', ''p6''], [''p1'', ''p4'', ''p7''], [''p2'', ''p5'', ''p8'']]"
proof -
  let ?ps = "[''p0'', ''p1'', ''p2'', ''p3'', ''p4'', ''p5'', ''p6'', ''p7'', ''p8'']"
  have h: "(1::nat) \<le> 3" by simp
  have e: "map (\<lambda>w. map (\<lambda>i. ?ps ! i) (filter (\<lambda>i. i mod 3 = w) [0..<length ?ps])) [0..<3]
      = [[''p0'', ''p3'', ''p6''], [''p1'', ''p4'', ''p7''], [''p2'', ''p5'', ''p8'']]"
    by code_simp
  show ?thesis
    using round_robin [OF h, of ?ps] e h by simp
qed

section \<open>The worker\<close>

subsection \<open>Steps of the worker and rules for its loops\<close>

lemma getNextClient_none:
  "getNextClient st = Inr (None, st1) \<Longrightarrow> st1 = st \<and> clients st = []"
  by (auto simp: getNextClient_def Let_def split: if_splits)

lemma getNextClient_empty: "clients st = [] \<Longrightarrow> getNextClient st = Inr (None, st)"
  by (simp add: getNextClient_def)

lemma getNextClient_some_pool:
  "getNextClient st = Inr (Some c, st1) \<Longrightarrow>
   length (clients st1) = length (clients st) \<and> cursorInRange st1 \<and> clients st \<noteq> []"
  by (auto simp: getNextClient_def cursorInRange_def Let_def split: if_splits)

lemma getNextClient_frame:
  assumes "getNextClient st = Inr (c, st1)"
  shows "promptFile st1 = promptFile st" and "requests st1 = requests st"
    and "success st1 = success st" and "failed st1 = failed st"
    and "images st1 = images st" and "completedPrompts st1 = completedPrompts st"
    and "failedPrompts st1 = failedPrompts st"
    and "consecutivePromptErrors st1 = consecutivePromptErrors st"
  using assms by (auto simp: getNextClient_def Let_def split: if_splits)

lemma getNextClient_in_range:
  "cursorInRange st \<Longrightarrow> \<exists>c st1. getNextClient st = Inr (Some c, st1)"
  by (auto simp: getNextClient_def cursorInRange_def Let_def)



lemma attempt_frame:
  "clients (snd (attempt api p c st)) = clients st"
  "currentTokenIndex (snd (attempt api p c st)) = currentTokenIndex st"
  "failed (snd (attempt api p c st)) = failed st"
  "failedPrompts (snd (attempt api p c st)) = failedPrompts st"
  "consecutivePromptErrors (snd (attempt api p c st)) = consecutivePromptErrors st"
  by (simp_all add: attempt_def Let_def split: response.splits prod.splits option.splits)

lemma attempt_Failed:
  "attempt api p c st = (Failed b, st2) \<Longrightarrow>
   promptFile st2 = promptFile st \<and> success st2 = success st
   \<and> completedPrompts st2 = completedPrompts st
   \<and> (\<exists>paths. images st2 = images st @ paths)"
  by (auto simp: attempt_def Let_def split: response.splits prod.splits option.splits if_splits)

lemma attempt_Succeeded:
  "attempt api p c st = (Succeeded, st2) \<Longrightarrow>
   promptFile st2 = snd (removePromptFromFile (promptFile st) p)
   \<and> completedPrompts st2 = completedPrompts st @ [p]
   \<and> (\<exists>paths. images st2 = images st @ paths \<and> success st2 = success st + length paths)"
  by (auto simp: attempt_def Let_def split: response.splits prod.splits option.splits if_splits)

lemma failAttempt_frame:
  "clients (failAttempt p m a st) = clients st"
  "currentTokenIndex (failAttempt p m a st) = currentTokenIndex st"
  "requests (failAttempt p m a st) = requests st"
  "promptFile (failAttempt p m a st) = promptFile st"
  "success (failAttempt p m a st) = success st"
  "images (failAttempt p m a st) = images st"
  "completedPrompts (failAttempt p m a st) = completedPrompts st"
  "consecutivePromptErrors (failAttempt p m a st) = consecutivePromptErrors st"
  by (simp_all add: failAttempt_def)

lemma attemptLoop_rule:
  assumes run: "attemptLoop api p m a h st = Inr (h', st')"
    and inv: "I a h st"
    and exit_case: "\<And>a h st. I a h st \<Longrightarrow> \<not> a < m \<Longrightarrow> R h st"
    and null_case: "\<And>a h st. I a h st \<Longrightarrow> a < m \<Longrightarrow> clients st = [] \<Longrightarrow>
                 R h (st\<lparr>failed := failed st + 1\<rparr>)"
    and succ_case: "\<And>a h st c st1 st2. I a h st \<Longrightarrow> a < m \<Longrightarrow>
                 getNextClient st = Inr (Some c, st1) \<Longrightarrow>
                 attempt api p c st1 = (Succeeded, st2) \<Longrightarrow> R False st2"
    and fail_case: "\<And>a h st c st1 b st2. I a h st \<Longrightarrow> a < m \<Longrightarrow>
                 getNextClient st = Inr (Some c, st1) \<Longrightarrow>
                 attempt api p c st1 = (Failed b, st2) \<Longrightarrow>
                 I (a + 1) (h \<or> b) (failAttempt p m (a + 1) st2)"
  shows "R h' st'"
  using run inv
proof (induction "m - a" arbitrary: a h st rule: less_induct)
  case less
  show ?case
  proof (cases "a < m")
    case False
    with less.prems(1) have "h' = h" "st' = st"
      by (simp_all add: attemptLoop.simps)
    with exit_case [OF less.prems(2) False] show ?thesis by simp
  next
    case True
    show ?thesis
    proof (cases "getNextClient st")
      case (Inl e)
      with True less.prems(1) show ?thesis
        by (simp add: attemptLoop.simps)
    next
      case (Inr cst)
      obtain c st1 where cst: "cst = (c, st1)" by (cases cst)
      show ?thesis
      proof (cases c)
        case None
        with Inr cst have g: "getNextClient st = Inr (None, st1)" by simp
        then have "st1 = st" "clients st = []"
          using getNextClient_none by blast+
        moreover from True g less.prems(1) have "h' = h" "st' = st1\<lparr>failed := failed st1 + 1\<rparr>"
          by (simp_all add: attemptLoop.simps)
        ultimately show ?thesis
          using null_case [OF less.prems(2) True] by simp
      next
        case (Some cl)
        with Inr cst have g: "getNextClient st = Inr (Some cl, st1)" by simp
        obtain out st2 where att: "attempt api p cl st1 = (out, st2)"
          by (cases "attempt api p cl st1")
        show ?thesis
        proof (cases out)
          case Succeeded
          with True g att less.prems(1) have "h' = False" "st' = st2"
            by (simp_all add: attemptLoop.simps)
          with succ_case [OF less.prems(2) True g] att Succeeded show ?thesis by simp
        next
          case (Failed b)
          with True g att less.prems(1) have
            rec: "attemptLoop api p m (a + 1) (h \<or> b) (failAttempt p m (a + 1) st2) = Inr (h', st')"
            by (simp add: attemptLoop.simps)
          have "I (a + 1) (h \<or> b) (failAttempt p m (a + 1) st2)"
            using fail_case [OF less.prems(2) True g] att Failed by simp
          moreover have "m - (a + 1) < m - a" using True by simp
          ultimately show ?thesis
            using less.hyps rec by blast
        qed
      qed
    qed
  qed
qed

lemma promptLoop_rule:
  assumes run: "promptLoop api ps st = Inr st'"
    and inv: "J st"
    and step: "\<And>p st h st1. J st \<Longrightarrow> processPrompt api p st = Inr (h, st1) \<Longrightarrow> J st1"
    and trip: "\<And>st rest. J st \<Longrightarrow>
                 J (st\<lparr>failedPrompts := failedPrompts st @ rest, failed := failed st + length rest\<rparr>)"
  shows "J st'"
  using run inv
proof (induction ps arbitrary: st)
  case Nil
  then show ?case by simp
next
  case (Cons p ps)
  show ?case
  proof (cases "processPrompt api p st")
    case (Inl e)
    with Cons.prems(1) show ?thesis by simp
  next
    case (Inr r)
    obtain h st1 where r: "r = (h, st1)" by (cases r)
    have J1: "J st1" using step [OF Cons.prems(2)] Inr r by simp
    show ?thesis
    proof (cases "h \<and> consecutivePromptErrors st1 \<ge> 3")
      case True
      with Inr r Cons.prems(1) have
        "st' = st1\<lparr>failedPrompts := failedPrompts st1 @ ps, failed := failed st1 + length ps\<rparr>"
        by auto
      with trip [OF J1] show ?thesis by simp
    next
      case False
      with Inr r Cons.prems(1) have "promptLoop api ps st1 = Inr st'"
        by auto
      with Cons.IH J1 show ?thesis by blast
    qed
  qed
qed

lemma processPrompt_cases:
  assumes "processPrompt api p st = Inr (h, st')"
  obtains c st1 st2 where "getNextClient st = Inr (c, st1)"
    and "attemptLoop api p (if length (clients st1) > 0 then length (clients st1) else 1) 0 False st1
           = Inr (h, st2)"
    and "st' = st2\<lparr>consecutivePromptErrors := (if h then consecutivePromptErrors st2 + 1 else 0)\<rparr>"
  using assms
  by (auto simp: processPrompt_def Let_def split: sum.splits prod.splits if_splits)



subsection \<open>The worker returns\<close>

text \<open>
  \<open>initializeClients\<close> puts the cursor at 0 and \<open>getNextClient\<close> keeps it within the
  array, so a pool is either empty or has its cursor in range. On such a pool no step of
  the worker throws: the worker returns its results.
\<close>

lemma attemptLoop_returns:
  "clients st = [] \<or> cursorInRange st \<Longrightarrow>
   \<exists>h' st'. attemptLoop api p m a h st = Inr (h', st') \<and> (clients st' = [] \<or> cursorInRange st')"
proof (induction "m - a" arbitrary: a h st rule: less_induct)
  case less
  show ?case
  proof (cases "a < m")
    case False
    with less.prems show ?thesis by (simp add: attemptLoop.simps)
  next
    case True
    show ?thesis
    proof (cases "clients st = []")
      case empty: True
      then show ?thesis
        using True by (subst attemptLoop.simps) (simp add: getNextClient_empty)
    next
      case False
      with less.prems have "cursorInRange st" by simp
      from getNextClient_in_range [OF this] obtain c st1 where
        g: "getNextClient st = Inr (Some c, st1)" by blast
      obtain out st2 where att: "attempt api p c st1 = (out, st2)"
        by (cases "attempt api p c st1")
      have s2: "st2 = snd (attempt api p c st1)" using att by simp
      have c1: "cursorInRange st1" using getNextClient_some_pool [OF g] by simp
      then have c2: "cursorInRange st2"
        by (simp add: cursorInRange_def s2 attempt_frame)
      show ?thesis
      proof (cases out)
        case Succeeded
        then show ?thesis
          using True g att c2 by (subst attemptLoop.simps) auto
      next
        case (Failed b)
        let ?st3 = "failAttempt p m (a + 1) st2"
        have step: "attemptLoop api p m a h st = attemptLoop api p m (a + 1) (h \<or> b) ?st3"
          using True g att Failed by (subst attemptLoop.simps) simp
        have "clients ?st3 = [] \<or> cursorInRange ?st3"
          using c2 by (simp add: cursorInRange_def failAttempt_frame)
        moreover have "m - (a + 1) < m - a" using True by simp
        ultimately show ?thesis
          using less.hyps [of "a + 1" ?st3 "h \<or> b"] step by simp
      qed
    qed
  qed
qed

lemma processPrompt_returns:
  assumes "clients st = [] \<or> cursorInRange st"
  shows "\<exists>h st'. processPrompt api p st = Inr (h, st') \<and> (clients st' = [] \<or> cursorInRange st')"
proof -
  have "\<exists>c st1. getNextClient st = Inr (c, st1) \<and> (clients st1 = [] \<or> cursorInRange st1)"
  proof (cases "clients st = []")
    case True
    then show ?thesis by (simp add: getNextClient_empty)
  next
    case False
    with assms have "cursorInRange st" by simp
    from getNextClient_in_range [OF this] obtain c st1 where
      g: "getNextClient st = Inr (Some c, st1)" by blast
    with getNextClient_some_pool [OF g] show ?thesis by simp
  qed
  then obtain c st1 where g: "getNextClient st = Inr (c, st1)"
    and ok: "clients st1 = [] \<or> cursorInRange st1" by blast
  let ?m = "if length (clients st1) > 0 then length (clients st1) else 1"
  from attemptLoop_returns [OF ok, of api p ?m 0 False] obtain h st2 where
    l: "attemptLoop api p ?m 0 False st1 = Inr (h, st2)"
    and ok2: "clients st2 = [] \<or> cursorInRange st2" by blast
  from g l ok2 show ?thesis
    by (auto simp: processPrompt_def cursorInRange_def)
qed

lemma promptLoop_returns:
  "clients st = [] \<or> cursorInRange st \<Longrightarrow> \<exists>st'. promptLoop api ps st = Inr st'"
proof (induction ps arbitrary: st)
  case Nil
  then show ?case by simp
next
  case (Cons p ps)
  from processPrompt_returns [OF Cons.prems, of api p] obtain h st1 where
    r: "processPrompt api p st = Inr (h, st1)" and ok: "clients st1 = [] \<or> cursorInRange st1"
    by blast
  from Cons.IH [OF ok] r show ?case by auto
qed

lemma generateImagesWorker_returns:
  "clients st = [] \<or> cursorInRange st \<Longrightarrow> \<exists>st'. generateImagesWorker api prompts st = Inr st'"
  unfolding generateImagesWorker_def
  by (rule promptLoop_returns) (simp add: cursorInRange_def)

subsection \<open>Success count and saved images\<close>

lemma attemptLoop_success_le:
  assumes "attemptLoop api p m a h st = Inr (h', st')" and "success st \<le> length (images st)"
  shows "success st' \<le> length (images st')"
proof (rule attemptLoop_rule [OF assms(1),
      where I = "\<lambda>a h s. success s \<le> length (images s)"
        and R = "\<lambda>h s. success s \<le> length (images s)"])
  fix a :: nat and h b :: bool and s s1 s2 :: worker and c :: client
  assume i: "success s \<le> length (images s)" and g: "getNextClient s = Inr (Some c, s1)"
  have s1: "success s1 = success s" "images s1 = images s"
    using getNextClient_frame [OF g] by simp_all
  {
    assume "attempt api p c s1 = (Succeeded, s2)"
    from attempt_Succeeded [OF this] i s1 show "success s2 \<le> length (images s2)"
      by auto
  next
    assume "attempt api p c s1 = (Failed b, s2)"
    from attempt_Failed [OF this] i s1
    show "success (failAttempt p m (a + 1) s2) \<le> length (images (failAttempt p m (a + 1) s2))"
      by (auto simp: failAttempt_frame)
  }
qed (use assms(2) in simp_all)

lemma saveImages_all_saved:
  "(snd (saveImages imgs) = None) = (\<forall>img\<in>set imgs. \<exists>path. img = Saved path)"
  by (induction imgs rule: saveImages.induct) (auto split: prod.splits)

lemma attempt_Failed_no_save:
  assumes "attempt api p c st = (Failed b, st2)"
    and "\<forall>n c p panels. api n c p = Ok panels \<longrightarrow> (\<forall>img\<in>set (concat panels). \<exists>path. img = Saved path)"
  shows "images st2 = images st"
proof (cases "api (length (requests st)) c p")
  case (Thrown msg)
  with assms(1) show ?thesis by (auto simp: attempt_def Let_def)
next
  case (Err msg)
  with assms(1) show ?thesis by (auto simp: attempt_def Let_def)
next
  case (Ok panels)
  with assms(2) have "\<forall>img\<in>set (concat panels). \<exists>path. img = Saved path" by blast
  then have "snd (saveImages (concat panels)) = None"
    by (simp only: saveImages_all_saved)
  with Ok assms(1) show ?thesis
    by (auto simp: attempt_def Let_def split: prod.splits option.splits if_splits)
qed

lemma attemptLoop_success_eq:
  assumes "attemptLoop api p m a h st = Inr (h', st')" and "success st = length (images st)"
    and ns: "\<forall>n c p panels. api n c p = Ok panels \<longrightarrow> (\<forall>img\<in>set (concat panels). \<exists>path. img = Saved path)"
  shows "success st' = length (images st')"
proof (rule attemptLoop_rule [OF assms(1),
      where I = "\<lambda>a h s. success s = length (images s)"
        and R = "\<lambda>h s. success s = length (images s)"])
  fix a :: nat and h b :: bool and s s1 s2 :: worker and c :: client
  assume i: "success s = length (images s)" and g: "getNextClient s = Inr (Some c, s1)"
  have s1: "success s1 = success s" "images s1 = images s"
    using getNextClient_frame [OF g] by simp_all
  {
    assume "attempt api p c s1 = (Succeeded, s2)"
    from attempt_Succeeded [OF this] i s1 show "success s2 = length (images s2)"
      by auto
  next
    assume f: "attempt api p c s1 = (Failed b, s2)"
    from attempt_Failed [OF f] attempt_Failed_no_save [OF f ns] i s1
    show "success (failAttempt p m (a + 1) s2) = length (images (failAttempt p m (a + 1) s2))"
      by (auto simp: failAttempt_frame)
  }
qed (use assms(2) in simp_all)

lemma processPrompt_success_le:
  assumes "processPrompt api p st = Inr (h, st')" and "success st \<le> length (images st)"
  shows "success st' \<le> length (images st')"
proof -
  from assms(1) obtain c st1 st2 where g: "getNextClient st = Inr (c, st1)"
    and l: "attemptLoop api p (if length (clients st1) > 0 then length (clients st1) else 1) 0 False st1
           = Inr (h, st2)"
    and e: "st' = st2\<lparr>consecutivePromptErrors := (if h then consecutivePromptErrors st2 + 1 else 0)\<rparr>"
    by (rule processPrompt_cases)
  have "success st1 \<le> length (images st1)"
    using getNextClient_frame [OF g] assms(2) by simp
  from attemptLoop_success_le [OF l this] e show ?thesis by simp
qed

lemma processPrompt_success_eq:
  assumes "processPrompt api p st = Inr (h, st')" and "success st = length (images st)"
    and ns: "\<forall>n c p panels. api n c p = Ok panels \<longrightarrow> (\<forall>img\<in>set (concat panels). \<exists>path. img = Saved path)"
  shows "success st' = length (images st')"
proof -
  from assms(1) obtain c st1 st2 where g: "getNextClient st = Inr (c, st1)"
    and l: "attemptLoop api p (if length (clients st1) > 0 then length (clients st1) else 1) 0 False st1
           = Inr (h, st2)"
    and e: "st' = st2\<lparr>consecutivePromptErrors := (if h then consecutivePromptErrors st2 + 1 else 0)\<rparr>"
    by (rule processPrompt_cases)
  have "success st1 = length (images st1)"
    using getNextClient_frame [OF g] assms(2) by simp
  from attemptLoop_success_eq [OF l this ns] e show ?thesis by simp
qed

lemma promptLoop_index_success_le:
  "success st \<le> length (images st) \<Longrightarrow>
   success (promptLoop_index api cl ps st) \<le> length (images (promptLoop_index api cl ps st))"
proof (induction ps arbitrary: st)
  case Nil
  then show ?case by simp
next
  case (Cons p ps)
  show ?case
    unfolding promptLoop_index.simps Let_def
    by (rule Cons.IH) (use Cons.prems in \<open>auto split: response.splits prod.splits option.splits\<close>)
qed

lemma promptLoop_index_success_eq:
  assumes ns: "\<forall>n c p panels. api n c p = Ok panels \<longrightarrow> (\<forall>img\<in>set (concat panels). \<exists>path. img = Saved path)"
  shows "success st = length (images st) \<Longrightarrow>
   success (promptLoop_index api cl ps st) = length (images (promptLoop_index api cl ps st))"
proof (induction ps arbitrary: st)
  case Nil
  then show ?case by simp
next
  case (Cons p ps)
  let ?r = "api (length (requests st)) cl p"
  have "snd (saveImages (concat panels)) = None" if "?r = Ok panels" for panels
    using ns that by (simp only: saveImages_all_saved) blast
  then show ?case
    unfolding promptLoop_index.simps Let_def
    by (intro Cons.IH) (use Cons.prems in \<open>auto split: response.splits prod.splits option.splits\<close>)
qed

text \<open>
  Claim C10, as amended. In every result of a worker, of either variant of the
  application, the success count is at most the number of entries of the array of saved
  images, and equal to it when no save of an image throws during the run. Success is
  counted per saved image of a completed prompt, not per completed prompt: in the example
  below one prompt completes and the count is two.
\<close>

theorem success_counts_images:
  "(generateImagesWorker api prompts st = Inr st' \<longrightarrow>
      success st' \<le> length (images st')
      \<and> ((\<forall>n c p panels. api n c p = Ok panels \<longrightarrow>
             (\<forall>img\<in>set (concat panels). \<exists>path. img = Saved path))
           \<longrightarrow> success st' = length (images st')))
   \<and> success (generateImagesWorker_index api cl prompts st)
        \<le> length (images (generateImagesWorker_index api cl prompts st))
   \<and> ((\<forall>n c p panels. api n c p = Ok panels \<longrightarrow>
          (\<forall>img\<in>set (concat panels). \<exists>path. img = Saved path))
        \<longrightarrow> success (generateImagesWorker_index api cl prompts st)
              = length (images (generateImagesWorker_index api cl prompts st)))"
proof (intro conjI impI)
  let ?st = "st\<lparr>success := 0, failed := 0, images := [], completedPrompts := [],
           failedPrompts := [], consecutivePromptErrors := 0\<rparr>"
  show "success (generateImagesWorker_index api cl prompts st)
        \<le> length (images (generateImagesWorker_index api cl prompts st))"
    unfolding generateImagesWorker_index_def by (rule promptLoop_index_success_le) simp
  {
    assume ns: "\<forall>n c p panels. api n c p = Ok panels \<longrightarrow>
            (\<forall>img\<in>set (concat panels). \<exists>path. img = Saved path)"
    show "success (generateImagesWorker_index api cl prompts st)
        = length (images (generateImagesWorker_index api cl prompts st))"
      unfolding generateImagesWorker_index_def
      by (rule promptLoop_index_success_eq [OF ns]) simp
  }
  assume "generateImagesWorker api prompts st = Inr st'"
  then have run: "promptLoop api prompts ?st = Inr st'"
    by (simp add: generateImagesWorker_def)
  show "success st' \<le> length (images st')"
    by (rule promptLoop_rule [OF run, where J = "\<lambda>s. success s \<le> length (images s)"])
       (auto elim: processPrompt_success_le)
  assume ns: "\<forall>n c p panels. api n c p = Ok panels \<longrightarrow>
            (\<forall>img\<in>set (concat panels). \<exists>path. img = Saved path)"
  show "success st' = length (images st')"
    by (rule promptLoop_rule [OF run, where J = "\<lambda>s. success s = length (images s)"])
       (auto elim: processPrompt_success_eq [OF _ _ ns])
qed

theorem success_counts_images_witness:
  "\<exists>st'. generateImagesWorker onlyA [''a'', ''b'', ''c'']
            (startState [token1, token2] ''a\<newline>b\<newline>c'') = Inr st'
     \<and> success st' = 2 \<and> length (images st') = 2 \<and> success st' \<le> length (images st')
     \<and> length (completedPrompts st') = 1"
proof -
  let ?final = "\<lparr>clients = [token1, token2], currentTokenIndex = 0,
      promptFile = Writable ''b\<newline>c'',
      requests =
        [(''key-2'', ''a'',
          Ok [[Saved ''w01_1_landscape_1.jpg'', Saved ''w01_1_landscape_2.jpg'']]),
         (''key-2'', ''b'', Err ''HTTP error! status: 500''),
         (''key-1'', ''b'', Err ''HTTP error! status: 500''),
         (''key-1'', ''c'', Err ''HTTP error! status: 500''),
         (''key-2'', ''c'', Err ''HTTP error! status: 500'')],
      success = 2, failed = 2,
      images = [''w01_1_landscape_1.jpg'', ''w01_1_landscape_2.jpg''],
      completedPrompts = [''a''], failedPrompts = [''b'', ''c''],
      consecutivePromptErrors = 0\<rparr>"
  have run: "generateImagesWorker onlyA [''a'', ''b'', ''c'']
      (startState [token1, token2] ''a\<newline>b\<newline>c'') = Inr ?final"
    by code_simp
  from success_counts_images [where api = onlyA and prompts = "[''a'', ''b'', ''c'']"
      and st = "startState [token1, token2] ''a\<newline>b\<newline>c''" and st' = ?final] run
  have "success ?final \<le> length (images ?final)"
    by blast
  with run show ?thesis
    by (intro exI [of _ ?final]) simp
qed

text \<open>
  Claim C10 as stated fails. One token, one prompt, a response with two images of which
  the second cannot be saved: the first image stays in the array of saved images, the
  attempt counts as failed, and the worker returns with one saved image and a success
  count of 0.
\<close>

theorem success_counts_images_counterexample:
  "generateImagesWorker secondSaveFails [''a''] (startState [token1] ''a'') =
     Inr \<lparr>clients = [token1], currentTokenIndex = 0, promptFile = Writable ''a'',
          requests =
            [(''key-1'', ''a'',
              Ok [[Saved ''w01_1_landscape_1.jpg'', SaveFails ''Failed to save image: ENOSPC'']])],
          success = 0, failed = 1, images = [''w01_1_landscape_1.jpg''],
          completedPrompts = [], failedPrompts = [''a''], consecutivePromptErrors = 0\<rparr>"
  by code_simp

subsection \<open>The flag of a prompt and the counter of the worker\<close>






subsection \<open>The attempts for a prompt whose every attempt fails\<close>






subsection \<open>The prompt file after a run\<close>

lemma attemptLoop_ledger:
  assumes run: "attemptLoop api p m a h st = Inr (h', st')"
    and inv: "\<exists>c'. promptFile st = Writable c'
        \<and> pendingPrompts c' = filter (\<lambda>q. q \<notin> trim ` set (completedPrompts st)) (pendingPrompts c0)"
  shows "\<exists>c'. promptFile st' = Writable c'
        \<and> pendingPrompts c' = filter (\<lambda>q. q \<notin> trim ` set (completedPrompts st')) (pendingPrompts c0)"
proof (rule attemptLoop_rule [OF run,
      where I = "\<lambda>a h s. \<exists>c'. promptFile s = Writable c'
        \<and> pendingPrompts c' = filter (\<lambda>q. q \<notin> trim ` set (completedPrompts s)) (pendingPrompts c0)"
        and R = "\<lambda>h s. \<exists>c'. promptFile s = Writable c'
        \<and> pendingPrompts c' = filter (\<lambda>q. q \<notin> trim ` set (completedPrompts s)) (pendingPrompts c0)"])
  fix a :: nat and h b :: bool and s s1 s2 :: worker and c :: client
  assume i: "\<exists>c'. promptFile s = Writable c'
        \<and> pendingPrompts c' = filter (\<lambda>q. q \<notin> trim ` set (completedPrompts s)) (pendingPrompts c0)"
    and g: "getNextClient s = Inr (Some c, s1)"
  from i obtain c' where c': "promptFile s = Writable c'"
    "pendingPrompts c' = filter (\<lambda>q. q \<notin> trim ` set (completedPrompts s)) (pendingPrompts c0)"
    by blast
  have s1: "promptFile s1 = promptFile s" "completedPrompts s1 = completedPrompts s"
    using getNextClient_frame [OF g] by simp_all
  {
    assume "attempt api p c s1 = (Succeeded, s2)"
    from attempt_Succeeded [OF this] s1 c'(1)
    have f2: "promptFile s2 = Writable (join_nl (filteredLines c' p))"
      and cp2: "completedPrompts s2 = completedPrompts s @ [p]"
      by simp_all
    have "pendingPrompts (join_nl (filteredLines c' p))
        = filter (\<lambda>q. q \<noteq> trim p)
            (filter (\<lambda>q. q \<notin> trim ` set (completedPrompts s)) (pendingPrompts c0))"
      by (simp only: pending_remove c'(2))
    also have "\<dots> = filter (\<lambda>q. q \<notin> trim ` set (completedPrompts s2)) (pendingPrompts c0)"
      by (auto simp: cp2 intro: filter_cong)
    finally show "\<exists>c'. promptFile s2 = Writable c'
        \<and> pendingPrompts c' = filter (\<lambda>q. q \<notin> trim ` set (completedPrompts s2)) (pendingPrompts c0)"
      using f2 by simp
  next
    assume "attempt api p c s1 = (Failed b, s2)"
    from attempt_Failed [OF this] s1 c'
    show "\<exists>c'. promptFile (failAttempt p m (a + 1) s2) = Writable c'
        \<and> pendingPrompts c' = filter (\<lambda>q. q \<notin> trim ` set (completedPrompts (failAttempt p m (a + 1) s2))) (pendingPrompts c0)"
      by (simp add: failAttempt_frame)
  }
qed (use inv in simp_all)

lemma processPrompt_ledger:
  assumes "processPrompt api p st = Inr (h, st')"
    and inv: "\<exists>c'. promptFile st = Writable c'
        \<and> pendingPrompts c' = filter (\<lambda>q. q \<notin> trim ` set (completedPrompts st)) (pendingPrompts c0)"
  shows "\<exists>c'. promptFile st' = Writable c'
        \<and> pendingPrompts c' = filter (\<lambda>q. q \<notin> trim ` set (completedPrompts st')) (pendingPrompts c0)"
proof -
  from assms(1) obtain c st1 st2 where g: "getNextClient st = Inr (c, st1)"
    and l: "attemptLoop api p (if length (clients st1) > 0 then length (clients st1) else 1) 0 False st1
           = Inr (h, st2)"
    and e: "st' = st2\<lparr>consecutivePromptErrors := (if h then consecutivePromptErrors st2 + 1 else 0)\<rparr>"
    by (rule processPrompt_cases)
  have "\<exists>c'. promptFile st1 = Writable c'
        \<and> pendingPrompts c' = filter (\<lambda>q. q \<notin> trim ` set (completedPrompts st1)) (pendingPrompts c0)"
    using getNextClient_frame [OF g] inv by simp
  from attemptLoop_ledger [OF l this] e show ?thesis by simp
qed

text \<open>
  Claim C1, as amended. When a worker runs on a prompt file that can be read and written,
  with no other worker writing the file in between (as in a batch of one worker), the
  pending prompts of the file at the return of the worker are those of the file at its
  start without the completed prompts: every prompt that succeeded is removed, and a
  prompt abandoned after its last attempt stays pending, like a prompt never attempted
  because the breaker tripped, unless a completed prompt has the same text.
\<close>

theorem succeeded_prompts_leave_ledger:
  assumes "generateImagesWorker api prompts st = Inr st'"
    and "promptFile st = Writable content"
  shows "\<exists>content'. promptFile st' = Writable content'
     \<and> pendingPrompts content'
         = filter (\<lambda>q. q \<notin> trim ` set (completedPrompts st')) (pendingPrompts content)"
proof -
  let ?st = "st\<lparr>success := 0, failed := 0, images := [], completedPrompts := [],
           failedPrompts := [], consecutivePromptErrors := 0\<rparr>"
  from assms have run: "promptLoop api prompts ?st = Inr st'"
    by (simp add: generateImagesWorker_def)
  show ?thesis
    by (rule promptLoop_rule [OF run, where J = "\<lambda>s. \<exists>c'. promptFile s = Writable c'
        \<and> pendingPrompts c' = filter (\<lambda>q. q \<notin> trim ` set (completedPrompts s)) (pendingPrompts content)"])
       (use assms(2) in \<open>auto elim: processPrompt_ledger\<close>)
qed

theorem succeeded_prompts_leave_ledger_witness:
  "\<exists>st'. generateImagesWorker onlyA [''a'', ''b'', ''c'']
            (startState [token1, token2] ''a\<newline>b\<newline>c'') = Inr st'
     \<and> completedPrompts st' = [''a''] \<and> failedPrompts st' = [''b'', ''c'']
     \<and> (\<exists>content'. promptFile st' = Writable content' \<and> pendingPrompts content' = [''b'', ''c''])"
proof -
  let ?st = "startState [token1, token2] ''a\<newline>b\<newline>c''"
  let ?final = "\<lparr>clients = [token1, token2], currentTokenIndex = 0,
      promptFile = Writable ''b\<newline>c'',
      requests =
        [(''key-2'', ''a'',
          Ok [[Saved ''w01_1_landscape_1.jpg'', Saved ''w01_1_landscape_2.jpg'']]),
         (''key-2'', ''b'', Err ''HTTP error! status: 500''),
         (''key-1'', ''b'', Err ''HTTP error! status: 500''),
         (''key-1'', ''c'', Err ''HTTP error! status: 500''),
         (''key-2'', ''c'', Err ''HTTP error! status: 500'')],
      success = 2, failed = 2,
      images = [''w01_1_landscape_1.jpg'', ''w01_1_landscape_2.jpg''],
      completedPrompts = [''a''], failedPrompts = [''b'', ''c''],
      consecutivePromptErrors = 0\<rparr>"
  have run: "generateImagesWorker onlyA [''a'', ''b'', ''c''] ?st = Inr ?final"
    by code_simp
  have f: "promptFile ?st = Writable ''a\<newline>b\<newline>c''"
    by (simp add: startState_def)
  have t: "trim ''a'' = ''a''" "trim ''b'' = ''b''" "trim ''c'' = ''c''"
    by (simp_all add: trim_def isWhiteSpace_def)
  have p: "pendingPrompts ''a\<newline>b\<newline>c'' = [''a'', ''b'', ''c'']"
    by (simp add: pendingPrompts_def t)
  from succeeded_prompts_leave_ledger [OF run f]
  have "\<exists>content'. promptFile ?final = Writable content'
      \<and> pendingPrompts content' = [''b'', ''c'']"
    by (simp add: p t)
  with run show ?thesis
    by (intro exI [of _ ?final]) simp
qed

text \<open>
  Claim C1 as stated fails. One worker, one token, one prompt, and a service that answers
  every request with status 500: the prompt is abandoned after its one attempt and stays
  in the prompt file, so that the final report counts one remaining prompt.
\<close>

theorem abandoned_prompt_stays_counterexample:
  "generateImagesWorker serverError [''a''] (startState [token1] ''a'') =
     Inr \<lparr>clients = [token1], currentTokenIndex = 0, promptFile = Writable ''a'',
          requests = [(''key-1'', ''a'', Err ''HTTP error! status: 500'')],
          success = 0, failed = 1, images = [], completedPrompts = [],
          failedPrompts = [''a''], consecutivePromptErrors = 0\<rparr>
   \<and> remainingPrompts (Writable ''a'') = 1"
  by code_simp

subsection \<open>The circuit breaker\<close>




subsection \<open>The empty pool\<close>

lemma processPrompt_empty:
  assumes "clients st = []"
  shows "processPrompt api p st = Inr (False, st\<lparr>failed := failed st + 1, consecutivePromptErrors := 0\<rparr>)"
proof -
  have "attemptLoop api p 1 0 False st = Inr (False, st\<lparr>failed := failed st + 1\<rparr>)"
    using assms by (subst attemptLoop.simps) (simp add: getNextClient_empty)
  then show ?thesis
    using assms by (simp add: processPrompt_def getNextClient_empty)
qed

lemma promptLoop_empty:
  "clients st = [] \<Longrightarrow>
   promptLoop api ps st =
     Inr (if ps = [] then st
          else st\<lparr>failed := failed st + length ps, consecutivePromptErrors := 0\<rparr>)"
proof (induction ps arbitrary: st)
  case Nil
  then show ?case by simp
next
  case (Cons p ps)
  let ?st1 = "st\<lparr>failed := failed st + 1, consecutivePromptErrors := 0\<rparr>"
  have "clients ?st1 = []" using Cons.prems by simp
  from Cons.IH [OF this] processPrompt_empty [OF Cons.prems, of api p]
  show ?case by simp
qed

text \<open>
  Claim C9. With an empty pool the worker returns with every one of its prompts counted
  as failed, none completed, no image saved, no request issued and the prompt file
  untouched.
\<close>

theorem empty_pool_abandons_all:
  assumes "clients st = []"
  shows "\<exists>st'. generateImagesWorker api prompts st = Inr st'
     \<and> failed st' = length prompts
     \<and> success st' = 0
     \<and> completedPrompts st' = []
     \<and> requests st' = requests st
     \<and> images st' = []
     \<and> promptFile st' = promptFile st"
  using assms by (simp add: generateImagesWorker_def promptLoop_empty)

theorem empty_pool_abandons_all_witness:
  "clients (startState [] ''a\<newline>b'') = []
   \<and> (\<exists>st'. generateImagesWorker rateLimited [''a'', ''b''] (startState [] ''a\<newline>b'') = Inr st'
         \<and> failed st' = 2 \<and> success st' = 0 \<and> completedPrompts st' = []
         \<and> requests st' = [] \<and> promptFile st' = Writable ''a\<newline>b'')"
proof -
  have h: "clients (startState [] ''a\<newline>b'') = []"
    by (simp add: startState_def)
  from empty_pool_abandons_all [OF h, of rateLimited "[''a'', ''b'']"] h show ?thesis
    by (auto simp: startState_def)
qed

end
